theory Spec2Isabelle
  imports Main
begin

section \<open>Characters and strings of the scanned file\<close>

text \<open>
  The hook reads the edited file with \<^verbatim>\<open>f.readlines()\<close> and hands the list of lines to
  four detectors. A Python \<^verbatim>\<open>str\<close> is a sequence of code points; here a line is a
  \<^typ>\<open>string\<close> whose \<^typ>\<open>char\<close>s are read as the code points 0..255, so that
  \<^const>\<open>length\<close> counts what Python's \<^verbatim>\<open>len\<close> counts. The two character classes
  below are Python's on that range: \<^verbatim>\<open>str.isspace\<close> (used by \<^verbatim>\<open>strip\<close>,
  \<^verbatim>\<open>lstrip\<close>, \<^verbatim>\<open>rstrip\<close> and by the pattern \<^verbatim>\<open>\s\<close>) and the pattern
  \<^verbatim>\<open>\w\<close> (alphanumeric or underscore).
\<close>

abbreviation (input) TAB :: char where "TAB \<equiv> CHR 0x09"
abbreviation (input) NL :: char where "NL \<equiv> CHR 0x0A"
abbreviation (input) QUOTE :: char where "QUOTE \<equiv> CHR 0x27"

definition is_space :: "char \<Rightarrow> bool" where
  "is_space c =
     (let n = (of_char c :: nat)
      in (9 \<le> n \<and> n \<le> 13) \<or> (28 \<le> n \<and> n \<le> 32) \<or> n = 133 \<or> n = 160)"

definition is_word :: "char \<Rightarrow> bool" where
  "is_word c =
     (let n = (of_char c :: nat)
      in (48 \<le> n \<and> n \<le> 57) \<or> (65 \<le> n \<and> n \<le> 90) \<or> n = 95 \<or> (97 \<le> n \<and> n \<le> 122)
         \<or> n = 170 \<or> n = 178 \<or> n = 179 \<or> n = 181 \<or> n = 185 \<or> n = 186
         \<or> (188 \<le> n \<and> n \<le> 190) \<or> (192 \<le> n \<and> n \<le> 214)
         \<or> (216 \<le> n \<and> n \<le> 246) \<or> (248 \<le> n \<and> n \<le> 255))"

definition lstrip :: "string \<Rightarrow> string" where
  "lstrip s = dropWhile is_space s"

definition rstrip :: "string \<Rightarrow> string" where
  "rstrip s = rev (dropWhile is_space (rev s))"

definition strip :: "string \<Rightarrow> string" where
  "strip s = lstrip (rstrip s)"

text \<open>Python's \<^verbatim>\<open>str(n)\<close> of a non-negative integer, as the f-strings interpolate it.\<close>

definition digit_char :: "nat \<Rightarrow> char" where
  "digit_char d = ''0123456789'' ! d"

fun show_nat :: "nat \<Rightarrow> string" where
  "show_nat n =
     (if n < 10 then [digit_char n]
      else show_nat (n div 10) @ [digit_char (n mod 10)])"

declare show_nat.simps [simp del]

section \<open>The regular expressions of the detectors\<close>

text \<open>
  The patterns of the source use literals, alternation, sequencing, optional groups and
  the repetitions \<^verbatim>\<open>\s*\<close>, \<^verbatim>\<open>\s+\<close>, \<^verbatim>\<open>\w+\<close> of a character class; that is the
  whole syntax below. \<open>rx_rests r s\<close> lists, in the order Python's backtracking matcher
  tries them (greedy repetitions, alternatives left to right), the rest of \<open>s\<close> after each
  way \<open>r\<close> can match at the start of \<open>s\<close>. A pattern matches at the start of \<open>s\<close> when
  that list is not empty.
\<close>

datatype cclass = Space | Word

fun in_class :: "cclass \<Rightarrow> char \<Rightarrow> bool" where
  "in_class Space c = is_space c"
| "in_class Word c = is_word c"

datatype rx =
    Lit string
  | Star cclass
  | Plus cclass
  | Seq rx rx
  | Alt rx rx
  | Opt rx

fun drops_down :: "nat \<Rightarrow> string \<Rightarrow> string list" where
  "drops_down 0 s = [s]"
| "drops_down (Suc k) s = drop (Suc k) s # drops_down k s"

fun rx_rests :: "rx \<Rightarrow> string \<Rightarrow> string list" where
  "rx_rests (Lit l) s = (if take (length l) s = l then [drop (length l) s] else [])"
| "rx_rests (Star c) s = drops_down (length (takeWhile (in_class c) s)) s"
| "rx_rests (Plus c) s = butlast (drops_down (length (takeWhile (in_class c) s)) s)"
| "rx_rests (Seq a b) s = concat (map (rx_rests b) (rx_rests a s))"
| "rx_rests (Alt a b) s = rx_rests a s @ rx_rests b s"
| "rx_rests (Opt a) s = rx_rests a s @ [s]"

text \<open>\<^verbatim>\<open>pattern.match(s) is not None\<close>: the pattern matches at position 0.\<close>

definition rx_match :: "rx \<Rightarrow> string \<Rightarrow> bool" where
  "rx_match r s = (rx_rests r s \<noteq> [])"

text \<open>\<^verbatim>\<open>pattern.search(s) is not None\<close> for a pattern without \<^verbatim>\<open>^\<close>: a match at some position.\<close>

fun rx_search :: "rx \<Rightarrow> string \<Rightarrow> bool" where
  "rx_search r [] = rx_match r []"
| "rx_search r (c # cs) = (rx_match r (c # cs) \<or> rx_search r cs)"

text \<open>\<^verbatim>\<open>(a|b|c)\<close>, alternatives left to right, and \<^verbatim>\<open>abc\<close>, one part after the other.\<close>

fun alts :: "rx list \<Rightarrow> rx" where
  "alts [] = Lit []"
| "alts [r] = r"
| "alts (r # rs) = Alt r (alts rs)"

fun seqs :: "rx list \<Rightarrow> rx" where
  "seqs [] = Lit []"
| "seqs [r] = r"
| "seqs (r # rs) = Seq r (seqs rs)"

section \<open>Thresholds and violations\<close>

definition MAX_FUNCTION_LINES :: nat where "MAX_FUNCTION_LINES = 50"
definition MAX_NESTING_DEPTH :: nat where "MAX_NESTING_DEPTH = 4"
definition MAX_FILE_LINES :: nat where "MAX_FILE_LINES = 500"
definition MAX_COMMENTED_BLOCK :: nat where "MAX_COMMENTED_BLOCK = 10"

text \<open>
  The detectors append formatted strings. A \<open>violation\<close> holds the values an f-string
  interpolates (line numbers are the 1-based ones of the message), and \<open>render\<close> is the
  f-string.
\<close>

datatype violation =
    FunctionTooLong nat string nat
  | NestingTooDeep nat nat
  | FileTooLong nat
  | StaleCommentBlock nat nat nat

fun render :: "violation \<Rightarrow> string" where
  "render (FunctionTooLong line_no func_name len) =
     ''  Line '' @ show_nat line_no @ '': function '' @ [QUOTE] @ func_name @ [QUOTE]
       @ '' is '' @ show_nat len @ '' lines (max '' @ show_nat MAX_FUNCTION_LINES @ '')''"
| "render (NestingTooDeep line_no depth) =
     ''  Line '' @ show_nat line_no @ '': nesting depth '' @ show_nat depth
       @ '' (max '' @ show_nat MAX_NESTING_DEPTH @ '')''"
| "render (FileTooLong n) =
     ''  File is '' @ show_nat n @ '' lines (max '' @ show_nat MAX_FILE_LINES @ '')''"
| "render (StaleCommentBlock first_line last_line n) =
     ''  Lines '' @ show_nat first_line @ ''-'' @ show_nat last_line @ '': '' @ show_nat n
       @ '' lines of commented-out code''"

section \<open>check_function_size\<close>

text \<open>
  \<^verbatim>\<open>func_pattern\<close> of the source, alternative by alternative. The pattern starts with
  \<^verbatim>\<open>^\<close> and is compiled without \<^verbatim>\<open>re.MULTILINE\<close>, so
  \<^verbatim>\<open>func_pattern.search(line)\<close> can only succeed at position 0: it is \<open>rx_match\<close>.
\<close>

definition binding_alternative :: rx where
  "binding_alternative =
     seqs [Opt (seqs [Lit ''export'', Plus Space]),
           Opt (seqs [Lit ''async'', Plus Space]),
           Opt (seqs [Lit ''function'', Plus Space]),
           alts [Lit ''const'', Lit ''let'', Lit ''var''],
           Plus Space, Plus Word, Star Space, Lit ''='', Star Space,
           Opt (seqs [Lit ''async'', Star Space]),
           Opt (Lit ''('')]"

definition method_alternative :: rx where
  "method_alternative =
     seqs [alts [Lit ''public'', Lit ''private'', Lit ''protected''],
           Plus Space,
           Opt (seqs [Lit ''static'', Plus Space]),
           Opt (seqs [Lit ''async'', Plus Space]),
           Plus Word, Star Space, Lit ''('']"

definition func_alternatives :: rx where
  "func_alternatives =
     alts [Lit ''def '', Lit ''function '', Lit ''async function '',
           binding_alternative,
           Lit ''func '',
           method_alternative]"

definition func_pattern :: rx where
  "func_pattern = Seq (Star Space) func_alternatives"

definition is_func_start :: "string \<Rightarrow> bool" where
  "is_func_start line = rx_match func_pattern line"

text \<open>
  The name: \<^verbatim>\<open>re.search(r"(?:def|function|func|const|let|var)\s+(\w+)", line)\<close>, then
  \<^verbatim>\<open>match.group(1) if match else "anonymous"\<close>. \<open>name_at s\<close> lists what group 1 holds
  for each way the pattern matches at the start of \<open>s\<close>, in backtracking order; the search
  takes the first way at the leftmost position that has one.
\<close>

definition name_keyword :: rx where
  "name_keyword =
     Seq (alts [Lit ''def'', Lit ''function'', Lit ''func'', Lit ''const'', Lit ''let'', Lit ''var''])
         (Plus Space)"

definition name_at :: "string \<Rightarrow> string list" where
  "name_at s =
     concat (map (\<lambda>t. map (\<lambda>u. take (length t - length u) t) (rx_rests (Plus Word) t))
                 (rx_rests name_keyword s))"

fun name_search :: "string \<Rightarrow> string option" where
  "name_search [] = (case name_at [] of [] \<Rightarrow> None | g # _ \<Rightarrow> Some g)"
| "name_search (c # cs) = (case name_at (c # cs) of [] \<Rightarrow> name_search cs | g # _ \<Rightarrow> Some g)"

definition extract_name :: "string \<Rightarrow> string" where
  "extract_name line = (case name_search line of Some g \<Rightarrow> g | None \<Rightarrow> ''anonymous'')"

text \<open>
  The loop state of \<^verbatim>\<open>check_function_size\<close>. The source measures a function from its
  start to the next start (or to the end of the file) and keeps only the messages;
  \<open>fs_spans\<close> is a ghost field that records every span so measured (name, start index,
  end index exclusive), at the two places where the source computes \<^verbatim>\<open>length\<close>.
\<close>

record fs_state =
  func_start :: "nat option"
  func_name :: string
  fs_violations :: "violation list"
  fs_spans :: "(string \<times> nat \<times> nat) list"

definition fs_init :: fs_state where
  "fs_init = \<lparr>func_start = None, func_name = [], fs_violations = [], fs_spans = []\<rparr>"

definition fs_close :: "fs_state \<Rightarrow> nat \<Rightarrow> nat \<Rightarrow> fs_state" where
  "fs_close st s e =
     (let len = e - s
      in st\<lparr>fs_violations :=
               (if len > MAX_FUNCTION_LINES
                then fs_violations st @ [FunctionTooLong (s + 1) (func_name st) len]
                else fs_violations st),
             fs_spans := fs_spans st @ [(func_name st, s, e)]\<rparr>)"

definition fs_step :: "fs_state \<Rightarrow> nat \<times> string \<Rightarrow> fs_state" where
  "fs_step st il =
     (case il of (i, line) \<Rightarrow>
        if is_func_start line
        then (let st1 = (case func_start st of Some s \<Rightarrow> fs_close st s i | None \<Rightarrow> st)
              in st1\<lparr>func_start := Some i, func_name := extract_name line\<rparr>)
        else st)"

definition fs_run :: "string list \<Rightarrow> fs_state" where
  "fs_run lines =
     (let st = foldl fs_step fs_init (enumerate 0 lines)
      in case func_start st of Some s \<Rightarrow> fs_close st s (length lines) | None \<Rightarrow> st)"

definition function_size_violations :: "string list \<Rightarrow> violation list" where
  "function_size_violations lines = fs_violations (fs_run lines)"

definition function_spans :: "string list \<Rightarrow> (string \<times> nat \<times> nat) list" where
  "function_spans lines = fs_spans (fs_run lines)"

definition check_function_size :: "string list \<Rightarrow> string list" where
  "check_function_size lines = map render (function_size_violations lines)"

section \<open>check_nesting_depth\<close>

definition nesting_depth :: "string \<Rightarrow> nat" where
  "nesting_depth line =
     (let leading = length line - length (lstrip line)
      in if TAB \<in> set (take leading line)
         then count_list (take leading line) TAB
         else leading div 4)"

record nd_state =
  reported_regions :: "nat set"
  nd_violations :: "violation list"

definition nd_init :: nd_state where
  "nd_init = \<lparr>reported_regions = {}, nd_violations = []\<rparr>"

definition nd_step :: "nd_state \<Rightarrow> nat \<times> string \<Rightarrow> nd_state" where
  "nd_step st il =
     (case il of (i, line) \<Rightarrow>
        if rstrip line = [] then st
        else (let depth = nesting_depth line
              in if depth > MAX_NESTING_DEPTH
                 then (let region = i div 10
                       in if region \<notin> reported_regions st
                          then st\<lparr>reported_regions := insert region (reported_regions st),
                                  nd_violations := nd_violations st @ [NestingTooDeep (i + 1) depth]\<rparr>
                          else st)
                 else st))"

definition nesting_depth_violations :: "string list \<Rightarrow> violation list" where
  "nesting_depth_violations lines = nd_violations (foldl nd_step nd_init (enumerate 0 lines))"

definition check_nesting_depth :: "string list \<Rightarrow> string list" where
  "check_nesting_depth lines = map render (nesting_depth_violations lines)"

section \<open>check_file_size\<close>

definition file_size_violations :: "string list \<Rightarrow> violation list" where
  "file_size_violations lines =
     (if length lines > MAX_FILE_LINES then [FileTooLong (length lines)] else [])"

definition check_file_size :: "string list \<Rightarrow> string list" where
  "check_file_size lines = map render (file_size_violations lines)"

section \<open>check_commented_blocks\<close>

definition code_keywords :: rx where
  "code_keywords =
     alts [Lit ''function'', Lit ''class'', Lit ''if'', Lit ''for'', Lit ''while'', Lit ''return'',
           Lit ''import'', Lit ''const'', Lit ''let'', Lit ''var'', Lit ''def '', Lit '';'',
           Lit ''{'', Lit ''}'', Lit ''('', Lit '')'']"

definition comment_pattern :: rx where
  "comment_pattern =
     Seq (Star Space) (alts [Lit ''//'', Lit ''#'', Lit ''--'', Lit ''/*'', Lit ''*''])"

text \<open>The condition of the loop body, on \<^verbatim>\<open>stripped = line.strip()\<close>.\<close>

definition is_stale_line :: "string \<Rightarrow> bool" where
  "is_stale_line line =
     (let stripped = strip line
      in rx_match comment_pattern stripped \<and> rx_search code_keywords stripped)"

text \<open>
  \<^verbatim>\<open>run_start\<close> is \<^verbatim>\<open>None\<close> outside a run, and the message computes
  \<^verbatim>\<open>run_start + 1\<close>: on \<^verbatim>\<open>None\<close> that raises \<^verbatim>\<open>TypeError\<close>, which nothing in the
  script catches. The model keeps that branch, so that its absence is a theorem.
\<close>

datatype error = TypeError

record cb_state =
  run_start :: "nat option"
  run_length :: nat
  cb_violations :: "violation list"

definition cb_init :: cb_state where
  "cb_init = \<lparr>run_start = None, run_length = 0, cb_violations = []\<rparr>"

definition cb_report :: "cb_state \<Rightarrow> error + cb_state" where
  "cb_report st =
     (if run_length st \<ge> MAX_COMMENTED_BLOCK
      then (case run_start st of
              None \<Rightarrow> Inl TypeError
            | Some s \<Rightarrow>
                Inr (st\<lparr>cb_violations := cb_violations st
                        @ [StaleCommentBlock (s + 1) (s + run_length st) (run_length st)]\<rparr>))
      else Inr st)"

definition cb_step :: "cb_state \<Rightarrow> nat \<times> string \<Rightarrow> error + cb_state" where
  "cb_step st il =
     (case il of (i, line) \<Rightarrow>
        if is_stale_line line
        then Inr (st\<lparr>run_start := (case run_start st of None \<Rightarrow> Some i | Some s \<Rightarrow> Some s),
                      run_length := run_length st + 1\<rparr>)
        else (case cb_report st of
                Inl e \<Rightarrow> Inl e
              | Inr st1 \<Rightarrow> Inr (st1\<lparr>run_start := None, run_length := 0\<rparr>)))"

fun cb_loop :: "cb_state \<Rightarrow> (nat \<times> string) list \<Rightarrow> error + cb_state" where
  "cb_loop st [] = Inr st"
| "cb_loop st (il # ils) =
     (case cb_step st il of Inl e \<Rightarrow> Inl e | Inr st1 \<Rightarrow> cb_loop st1 ils)"

definition commented_block_violations :: "string list \<Rightarrow> error + violation list" where
  "commented_block_violations lines =
     (case cb_loop cb_init (enumerate 0 lines) of
        Inl e \<Rightarrow> Inl e
      | Inr st \<Rightarrow> (case cb_report st of Inl e \<Rightarrow> Inl e | Inr st1 \<Rightarrow> Inr (cb_violations st1)))"

definition check_commented_blocks :: "string list \<Rightarrow> error + string list" where
  "check_commented_blocks lines =
     (case commented_block_violations lines of Inl e \<Rightarrow> Inl e | Inr vs \<Rightarrow> Inr (map render vs))"

section \<open>main: the aggregation\<close>

text \<open>
  Lines 203 to 207 of the script: four \<^verbatim>\<open>violations.extend(detector(lines))\<close> in a row,
  with no \<^verbatim>\<open>try\<close> around any of them, so an exception raised by a detector leaves
  \<^verbatim>\<open>main\<close> at once. \<open>collect\<close> is that sequence for any four detectors.
\<close>

type_synonym detector = "string list \<Rightarrow> error + string list"

definition collect :: "detector \<Rightarrow> detector \<Rightarrow> detector \<Rightarrow> detector \<Rightarrow> string list \<Rightarrow> error + string list" where
  "collect d1 d2 d3 d4 lines =
     (case d1 lines of Inl e \<Rightarrow> Inl e | Inr r1 \<Rightarrow>
      (case d2 lines of Inl e \<Rightarrow> Inl e | Inr r2 \<Rightarrow>
       (case d3 lines of Inl e \<Rightarrow> Inl e | Inr r3 \<Rightarrow>
        (case d4 lines of Inl e \<Rightarrow> Inl e | Inr r4 \<Rightarrow>
           Inr (((([] @ r1) @ r2) @ r3) @ r4)))))"

definition scan :: "string list \<Rightarrow> error + string list" where
  "scan lines =
     collect (\<lambda>ls. Inr (check_function_size ls)) (\<lambda>ls. Inr (check_nesting_depth ls))
             (\<lambda>ls. Inr (check_file_size ls)) check_commented_blocks lines"

text \<open>
  Lines 209 to 218: what \<^verbatim>\<open>main\<close> prints on stderr and its exit code, for the file name
  \<open>base\<close> (\<^verbatim>\<open>os.path.basename(file_path)\<close>): exit code 2 when the list of violations
  is not empty, 0 otherwise.
\<close>

definition main_report :: "string \<Rightarrow> string list \<Rightarrow> error + (string list \<times> nat)" where
  "main_report base lines =
     (case scan lines of
        Inl e \<Rightarrow> Inl e
      | Inr violations \<Rightarrow>
          if violations \<noteq> []
          then Inr ((''Code quality issues in '' @ base @ '':'') # violations, 2)
          else Inr ([], 0))"

section \<open>Notions used to state the properties\<close>

subsection \<open>Nesting\<close>










subsection \<open>Aggregation\<close>


subsection \<open>Function spans\<close>

text \<open>
  The indices of the recognized start lines, in increasing order, and the spans they
  delimit: each start paired with the next one, the last with the end \<open>n\<close> of the file.
\<close>

definition start_indices :: "string list \<Rightarrow> nat list" where
  "start_indices lines = filter (\<lambda>i. is_func_start (lines ! i)) [0..<length lines]"

definition span_bounds :: "nat list \<Rightarrow> nat \<Rightarrow> (nat \<times> nat) list" where
  "span_bounds ss n = zip ss (tl ss @ [n])"

definition named_span :: "string list \<Rightarrow> nat \<times> nat \<Rightarrow> string \<times> nat \<times> nat" where
  "named_span lines se = (extract_name (lines ! fst se), fst se, snd se)"

definition span_violation :: "string \<times> nat \<times> nat \<Rightarrow> violation" where
  "span_violation sp = (case sp of (name, s, e) \<Rightarrow> FunctionTooLong (s + 1) name (e - s))"

definition span_too_long :: "string \<times> nat \<times> nat \<Rightarrow> bool" where
  "span_too_long sp = (case sp of (name, s, e) \<Rightarrow> MAX_FUNCTION_LINES < e - s)"

text \<open>
  The invariant of the function-size loop after the lines \<open>xs\<close>: the open span starts at
  the last recognized start and carries its name, the closed spans are the consecutive pairs
  of starts, and the violations are those of the closed spans that are too long.
\<close>

definition fs_inv :: "string list \<Rightarrow> fs_state \<Rightarrow> bool" where
  "fs_inv xs st =
     (func_start st = (if start_indices xs = [] then None else Some (last (start_indices xs)))
      \<and> (start_indices xs \<noteq> [] \<longrightarrow> func_name st = extract_name (xs ! last (start_indices xs)))
      \<and> fs_spans st
          = map (named_span xs) (zip (butlast (start_indices xs)) (tl (start_indices xs)))
      \<and> fs_violations st = map span_violation (filter span_too_long (fs_spans st)))"

definition three_functions_file :: "string list" where
  "three_functions_file =
     [''def a():'' @ [NL], ''    pass'' @ [NL], [NL], ''function b() {'' @ [NL], ''}'' @ [NL],
      ''const c = 5'' @ [NL], ''print(c)'' @ [NL]]"

definition sixty_line_function :: "string list" where
  "sixty_line_function = (''def foo():'' @ [NL]) # replicate 59 (''    pass'' @ [NL])"

subsection \<open>The family of start signatures\<close>

text \<open>
  The binding alternative of \<open>func_pattern\<close> without its last three parts
  \<^verbatim>\<open>\s*(?:async\s*)?\(?\<close>, which match the empty string.
\<close>

definition binding_core :: rx where
  "binding_core =
     seqs [alts [Lit ''const'', Lit ''let'', Lit ''var''],
           Plus Space, Plus Word, Star Space, Lit ''='']"

definition binding_head :: rx where
  "binding_head =
     seqs [Opt (seqs [Lit ''export'', Plus Space]),
           Opt (seqs [Lit ''async'', Plus Space]),
           Opt (seqs [Lit ''function'', Plus Space]),
           binding_core]"

text \<open>
  The family as the specification words it, for comparison with \<open>func_pattern\<close>: a leading
  \<^verbatim>\<open>def \<close>, \<^verbatim>\<open>function \<close> or \<^verbatim>\<open>async function\<close> (the last without a following
  space), the binding \<^verbatim>\<open>const|let|var NAME = (async)? (\<close> with its opening parenthesis,
  \<^verbatim>\<open>func \<close>, or the method signature
  \<^verbatim>\<open>public|private|protected (static)? (async)? NAME(\<close>. A blank of that notation is read
  as whitespace, as generously as the source does: any whitespace before the signature, at
  least one whitespace character after a keyword, any number around the equals sign and
  before an opening parenthesis.
\<close>

definition spec_binding :: rx where
  "spec_binding =
     seqs [alts [Lit ''const'', Lit ''let'', Lit ''var''],
           Plus Space, Plus Word, Star Space, Lit ''='', Star Space,
           Opt (seqs [Lit ''async'', Star Space]),
           Lit ''('']"

definition spec_method :: rx where
  "spec_method =
     seqs [alts [Lit ''public'', Lit ''private'', Lit ''protected''],
           Plus Space,
           Opt (seqs [Lit ''static'', Plus Space]),
           Opt (seqs [Lit ''async'', Plus Space]),
           Plus Word, Star Space, Lit ''('']"

definition spec_alternatives :: rx where
  "spec_alternatives =
     alts [Lit ''def '', Lit ''function '', Lit ''async function'',
           spec_binding,
           Lit ''func '',
           spec_method]"

definition spec_family :: rx where
  "spec_family = Seq (Star Space) spec_alternatives"

definition constant_binding_line :: string where
  "constant_binding_line = ''const x = 5'' @ [NL]"

definition arrow_function_line :: string where
  "arrow_function_line = ''  const f = async (a) => {'' @ [NL]"

definition async_anonymous_line :: string where
  "async_anonymous_line = ''async function(req, res) {'' @ [NL]"

subsection \<open>Comment runs\<close>

text \<open>
  \<open>is_run P lines s n\<close>: the \<open>n\<close> lines from index \<open>s\<close> form a maximal run of lines
  satisfying \<open>P\<close>: all of them satisfy it, and the run is bounded on each side by a line that
  does not, or by the start or the end of the file. A run is closed when a line follows it;
  \<open>trailing_run P xs n\<close> says that exactly the last \<open>n\<close> lines of \<open>xs\<close> satisfy \<open>P\<close>.
\<close>

definition is_run :: "('a \<Rightarrow> bool) \<Rightarrow> 'a list \<Rightarrow> nat \<Rightarrow> nat \<Rightarrow> bool" where
  "is_run P lines s n =
     (0 < n \<and> s + n \<le> length lines
      \<and> (\<forall>k < n. P (lines ! (s + k)))
      \<and> (s = 0 \<or> \<not> P (lines ! (s - 1)))
      \<and> (s + n = length lines \<or> \<not> P (lines ! (s + n))))"

definition closed_run :: "('a \<Rightarrow> bool) \<Rightarrow> 'a list \<Rightarrow> nat \<Rightarrow> nat \<Rightarrow> bool" where
  "closed_run P xs s n = (is_run P xs s n \<and> s + n < length xs)"

definition trailing_run :: "('a \<Rightarrow> bool) \<Rightarrow> 'a list \<Rightarrow> nat \<Rightarrow> bool" where
  "trailing_run P xs n =
     (n \<le> length xs
      \<and> (\<forall>k < n. P (xs ! (length xs - n + k)))
      \<and> (n = length xs \<or> \<not> P (xs ! (length xs - n - 1))))"

text \<open>
  The consistency of the comment-run state (outside a run the length is 0), and the
  invariant of the loop after the lines \<open>xs\<close>: the state holds the trailing run, and the
  violations are, without repetition, the closed runs that are long enough.
  \<open>stale_runs xs vs\<close> says the same of all runs of \<open>xs\<close>, as the check after the loop
  leaves it.
\<close>

definition cb_ok :: "cb_state \<Rightarrow> bool" where
  "cb_ok st = (run_start st = None \<longrightarrow> run_length st = 0)"

definition cb_inv :: "string list \<Rightarrow> cb_state \<Rightarrow> bool" where
  "cb_inv xs st =
     (trailing_run is_stale_line xs (run_length st)
      \<and> run_start st = (if run_length st = 0 then None else Some (length xs - run_length st))
      \<and> distinct (cb_violations st)
      \<and> (\<forall>v. v \<in> set (cb_violations st) \<longleftrightarrow>
            (\<exists>s n. v = StaleCommentBlock (s + 1) (s + n) n
               \<and> closed_run is_stale_line xs s n \<and> MAX_COMMENTED_BLOCK \<le> n)))"

definition stale_runs :: "string list \<Rightarrow> violation list \<Rightarrow> bool" where
  "stale_runs xs vs =
     (distinct vs
      \<and> (\<forall>v. v \<in> set vs \<longleftrightarrow>
            (\<exists>s n. v = StaleCommentBlock (s + 1) (s + n) n
               \<and> is_run is_stale_line xs s n \<and> MAX_COMMENTED_BLOCK \<le> n)))"

text \<open>
  The two conditions of a stale line in plain terms. A line is comment-classified when its
  stripped text starts with a comment marker. \<open>contains_code_signal s\<close> says that one of the
  code signals occurs somewhere in the text \<open>s\<close>: the specification reads it on the line,
  the code on the stripped line.
\<close>

definition comment_markers :: "string list" where
  "comment_markers = [''//'', ''#'', ''--'', ''/*'', ''*'']"

definition code_signals :: "string list" where
  "code_signals =
     [''function'', ''class'', ''if'', ''for'', ''while'', ''return'', ''import'', ''const'',
      ''let'', ''var'', ''def '', '';'', ''{'', ''}'', ''('', '')'']"

definition comment_classified :: "string \<Rightarrow> bool" where
  "comment_classified line = (\<exists>m \<in> set comment_markers. take (length m) (strip line) = m)"

definition contains_code_signal :: "string \<Rightarrow> bool" where
  "contains_code_signal s = (\<exists>k \<in> set code_signals. \<exists>i. take (length k) (drop i s) = k)"

definition twelve_stale_then_prose :: "string list" where
  "twelve_stale_then_prose =
     replicate 12 (''# import foo'' @ [NL]) @ [''# see the notes above'' @ [NL]]"

text \<open>A comment line whose only code signal ends in the trailing whitespace of the line.\<close>

definition trailing_def_line :: string where
  "trailing_def_line = ''# def '' @ [NL]"

section \<open>Properties\<close>

subsection \<open>The comment detector never raises\<close>

lemma enumerate_snoc: "enumerate n (xs @ [x]) = enumerate n xs @ [(n + length xs, x)]"
  by (simp add: enumerate_append_eq)

lemma cb_loop_snoc:
  "cb_loop st (ils @ [il]) = (case cb_loop st ils of Inl e \<Rightarrow> Inl e | Inr st1 \<Rightarrow> cb_step st1 il)"
  by (induction ils arbitrary: st) (auto split: sum.splits)

lemma cb_report_ok:
  "cb_ok st \<Longrightarrow> \<exists>st1. cb_report st = Inr st1 \<and> run_start st1 = run_start st \<and> run_length st1 = run_length st"
  by (auto simp: cb_ok_def cb_report_def MAX_COMMENTED_BLOCK_def split: option.splits)

lemma cb_step_ok: "cb_ok st \<Longrightarrow> \<exists>st1. cb_step st il = Inr st1 \<and> cb_ok st1"
proof (cases il)
  case (Pair i line)
  assume ok: "cb_ok st"
  then obtain st1 where r: "cb_report st = Inr st1" using cb_report_ok by blast
  show ?thesis using Pair r by (auto simp: cb_step_def cb_ok_def split: option.splits)
qed

lemma cb_loop_ok: "cb_ok st \<Longrightarrow> \<exists>st1. cb_loop st ils = Inr st1 \<and> cb_ok st1"
proof (induction ils arbitrary: st)
  case Nil
  then show ?case by simp
next
  case (Cons il ils)
  from cb_step_ok [OF Cons.prems] obtain st1 where s: "cb_step st il = Inr st1" "cb_ok st1" by blast
  from Cons.IH [OF s(2)] show ?case using s(1) by simp
qed

lemma commented_block_violations_total: "\<exists>vs. commented_block_violations lines = Inr vs"
proof -
  have "cb_ok cb_init" by (simp add: cb_ok_def cb_init_def)
  from cb_loop_ok [OF this] obtain st where l: "cb_loop cb_init (enumerate 0 lines) = Inr st" "cb_ok st"
    by blast
  from cb_report_ok [OF l(2)] obtain st1 where "cb_report st = Inr st1" by blast
  with l(1) show ?thesis by (simp add: commented_block_violations_def)
qed

lemma check_commented_blocks_total: "\<exists>cb. check_commented_blocks lines = Inr cb"
  using commented_block_violations_total [of lines]
  by (auto simp: check_commented_blocks_def)

subsection \<open>The file-size threshold\<close>



subsection \<open>The empty file and the order of the report\<close>

text \<open>
  C10: on the empty line sequence every detector returns the empty list, the aggregated
  report is empty and \<^verbatim>\<open>main\<close> takes the branch without violations (exit code 0).
\<close>

theorem empty_file_no_violations:
  "check_function_size [] = [] \<and> check_nesting_depth [] = [] \<and> check_file_size [] = []
   \<and> check_commented_blocks [] = Inr [] \<and> scan [] = Inr []
   \<and> main_report base [] = Inr ([], 0)"
  by (simp add: check_function_size_def function_size_violations_def fs_run_def fs_init_def
      check_nesting_depth_def nesting_depth_violations_def nd_init_def
      check_file_size_def file_size_violations_def MAX_FILE_LINES_def
      check_commented_blocks_def commented_block_violations_def cb_init_def cb_report_def
      MAX_COMMENTED_BLOCK_def scan_def collect_def main_report_def enumerate_eq_zip)

text \<open>
  C9: the aggregated report is the concatenation, nothing removed, of the violations of
  check_function_size, check_nesting_depth, check_file_size and check_commented_blocks in
  that order, and \<^verbatim>\<open>main\<close> takes the has-violations branch (header line, exit code 2)
  exactly when the concatenation is not empty.
\<close>

theorem report_is_concatenation:
  "\<exists>cb. check_commented_blocks lines = Inr cb
     \<and> scan lines = Inr (check_function_size lines @ check_nesting_depth lines
                         @ check_file_size lines @ cb)
     \<and> main_report base lines =
         Inr (if check_function_size lines @ check_nesting_depth lines
                   @ check_file_size lines @ cb = []
              then ([], 0)
              else ((''Code quality issues in '' @ base @ '':'')
                     # (check_function_size lines @ check_nesting_depth lines
                        @ check_file_size lines @ cb), 2))"
proof -
  obtain cb where cb: "check_commented_blocks lines = Inr cb"
    using check_commented_blocks_total by blast
  have s: "scan lines = Inr (check_function_size lines @ check_nesting_depth lines
                         @ check_file_size lines @ cb)"
    by (simp add: scan_def collect_def cb)
  show ?thesis
    by (rule exI [of _ cb]) (simp add: cb s main_report_def del: append_is_Nil_conv)
qed

subsection \<open>Nesting depth\<close>

lemma foldl_enumerate_snoc:
  "foldl f a (enumerate 0 (xs @ [x])) = f (foldl f a (enumerate 0 xs)) (length xs, x)"
  by (simp add: enumerate_snoc)







lemma take_leading: "take (length s - length (dropWhile P s)) s = takeWhile P s"
proof -
  have "length (takeWhile P s) + length (dropWhile P s) = length s"
    by (metis length_append takeWhile_dropWhile_id)
  then have "length s - length (dropWhile P s) = length (takeWhile P s)" by simp
  then show ?thesis by (simp add: takeWhile_eq_take [symmetric])
qed









subsection \<open>No fault isolation in the aggregation\<close>



subsection \<open>Function spans\<close>

lemma start_indices_snoc:
  "start_indices (xs @ [x]) = start_indices xs @ (if is_func_start x then [length xs] else [])"
proof -
  have "filter (\<lambda>i. is_func_start ((xs @ [x]) ! i)) [0..<length xs]
        = filter (\<lambda>i. is_func_start (xs ! i)) [0..<length xs]"
    by (rule filter_cong) (simp_all add: nth_append)
  then show ?thesis by (simp add: start_indices_def)
qed

lemma start_indices_less: "i \<in> set (start_indices xs) \<Longrightarrow> i < length xs"
  by (simp add: start_indices_def)

lemma start_indices_start: "i \<in> set (start_indices xs) \<Longrightarrow> is_func_start (xs ! i)"
  by (simp add: start_indices_def)

lemma start_indices_sorted: "sorted_wrt (<) (start_indices xs)"
  unfolding start_indices_def by (intro sorted_wrt_filter sorted_wrt_upt)

lemma start_indices_count: "length (start_indices xs) = length (filter is_func_start xs)"
proof (induction xs rule: rev_induct)
  case Nil
  then show ?case by (simp add: start_indices_def)
next
  case (snoc x xs)
  then show ?case by (simp add: start_indices_snoc)
qed

lemma zip_next_snoc:
  "ss \<noteq> [] \<Longrightarrow> zip ss (tl ss @ [n]) = zip (butlast ss) (tl ss) @ [(last ss, n)]"
proof -
  assume ne: "ss \<noteq> []"
  then have "zip (butlast ss @ [last ss]) (tl ss @ [n]) = zip (butlast ss) (tl ss) @ zip [last ss] [n]"
    by (intro zip_append) simp
  with ne show ?thesis by simp
qed

lemma named_span_snoc:
  assumes "\<forall>p \<in> set ps. fst p < length xs"
  shows "map (named_span (xs @ [x])) ps = map (named_span xs) ps"
  using assms by (intro map_cong) (auto simp: named_span_def nth_append)

lemma closed_pairs_less:
  "p \<in> set (zip (butlast (start_indices xs)) (tl (start_indices xs))) \<Longrightarrow> fst p < length xs"
proof -
  assume "p \<in> set (zip (butlast (start_indices xs)) (tl (start_indices xs)))"
  then have "(fst p, snd p) \<in> set (zip (butlast (start_indices xs)) (tl (start_indices xs)))"
    by simp
  then have "fst p \<in> set (butlast (start_indices xs))"
    by (rule set_zip_leftD)
  then have "fst p \<in> set (start_indices xs)" by (rule in_set_butlastD)
  then show ?thesis by (rule start_indices_less)
qed

lemma fs_inv_init: "fs_inv [] fs_init"
  by (simp add: fs_inv_def fs_init_def start_indices_def)

lemma fs_inv_step:
  assumes inv: "fs_inv xs st"
  shows "fs_inv (xs @ [x]) (fs_step st (length xs, x))"
proof (cases "is_func_start x")
  case False
  then have st: "fs_step st (length xs, x) = st" by (simp add: fs_step_def)
  have ss: "start_indices (xs @ [x]) = start_indices xs" using False by (simp add: start_indices_snoc)
  have nm: "start_indices xs \<noteq> [] \<Longrightarrow>
      (xs @ [x]) ! last (start_indices xs) = xs ! last (start_indices xs)"
    using start_indices_less [of "last (start_indices xs)" xs] by (simp add: nth_append)
  have sp: "map (named_span (xs @ [x])) (zip (butlast (start_indices xs)) (tl (start_indices xs)))
      = map (named_span xs) (zip (butlast (start_indices xs)) (tl (start_indices xs)))"
    by (rule named_span_snoc) (simp add: closed_pairs_less)
  from inv show ?thesis unfolding fs_inv_def st ss sp using nm by simp
next
  case True
  let ?ss = "start_indices xs"
  let ?n = "length xs"
  have ss: "start_indices (xs @ [x]) = ?ss @ [?n]" using True by (simp add: start_indices_snoc)
  show ?thesis
  proof (cases "?ss = []")
    case True
    with inv have "func_start st = None" "fs_spans st = []" "fs_violations st = []"
      by (simp_all add: fs_inv_def)
    then show ?thesis
      using \<open>is_func_start x\<close> True ss by (simp add: fs_inv_def fs_step_def)
  next
    case False
    let ?s = "last ?ss"
    from inv False have fs: "func_start st = Some ?s" and fn: "func_name st = extract_name (xs ! ?s)"
      and sp: "fs_spans st = map (named_span xs) (zip (butlast ?ss) (tl ?ss))"
      and vs: "fs_violations st = map span_violation (filter span_too_long (fs_spans st))"
      by (simp_all add: fs_inv_def)
    have less: "?s < ?n" using False start_indices_less [of ?s xs] by simp
    have step: "fs_step st (?n, x) = (fs_close st ?s ?n)\<lparr>func_start := Some ?n, func_name := extract_name x\<rparr>"
      using \<open>is_func_start x\<close> fs by (simp add: fs_step_def)
    have spans: "fs_spans (fs_close st ?s ?n) = fs_spans st @ [(func_name st, ?s, ?n)]"
      by (simp add: fs_close_def Let_def)
    have viols: "fs_violations (fs_close st ?s ?n)
        = map span_violation (filter span_too_long (fs_spans st @ [(func_name st, ?s, ?n)]))"
      using vs by (simp add: fs_close_def Let_def span_violation_def span_too_long_def)
    have z: "zip (butlast (?ss @ [?n])) (tl (?ss @ [?n])) = zip (butlast ?ss) (tl ?ss) @ [(?s, ?n)]"
      using False by (simp add: zip_next_snoc)
    have old: "map (named_span (xs @ [x])) (zip (butlast ?ss) (tl ?ss))
      = map (named_span xs) (zip (butlast ?ss) (tl ?ss))"
      by (rule named_span_snoc) (simp add: closed_pairs_less)
    have new: "named_span (xs @ [x]) (?s, ?n) = (func_name st, ?s, ?n)"
      using less fn by (simp add: named_span_def nth_append)
    have spans': "fs_spans (fs_close st ?s ?n)
        = map (named_span (xs @ [x])) (zip (butlast (?ss @ [?n])) (tl (?ss @ [?n])))"
      unfolding z spans sp using old new by simp
    show ?thesis
      unfolding fs_inv_def ss step using spans' viols spans by simp
  qed
qed

lemma fs_inv_foldl: "fs_inv xs (foldl fs_step fs_init (enumerate 0 xs))"
proof (induction xs rule: rev_induct)
  case Nil
  then show ?case by (simp add: fs_inv_init)
next
  case (snoc x xs)
  then show ?case by (simp add: foldl_enumerate_snoc fs_inv_step)
qed

lemma function_spans_eq:
  "function_spans lines
     = map (named_span lines) (span_bounds (start_indices lines) (length lines))"
proof -
  let ?st = "foldl fs_step fs_init (enumerate 0 lines)"
  let ?ss = "start_indices lines"
  have inv: "fs_inv lines ?st" by (rule fs_inv_foldl)
  show ?thesis
  proof (cases "?ss = []")
    case True
    with inv show ?thesis
      by (simp add: fs_inv_def function_spans_def fs_run_def span_bounds_def)
  next
    case False
    with inv have fs: "func_start ?st = Some (last ?ss)"
      and fn: "func_name ?st = extract_name (lines ! last ?ss)"
      and sp: "fs_spans ?st = map (named_span lines) (zip (butlast ?ss) (tl ?ss))"
      by (simp_all add: fs_inv_def)
    have "function_spans lines = fs_spans ?st @ [(func_name ?st, last ?ss, length lines)]"
      using fs by (simp add: function_spans_def fs_run_def fs_close_def Let_def)
    then show ?thesis
      using False fn sp by (simp add: span_bounds_def zip_next_snoc named_span_def)
  qed
qed

lemma function_size_violations_eq:
  "function_size_violations lines
     = map span_violation (filter span_too_long (function_spans lines))"
proof -
  let ?st = "foldl fs_step fs_init (enumerate 0 lines)"
  have inv: "fs_inv lines ?st" by (rule fs_inv_foldl)
  then have vs: "fs_violations ?st = map span_violation (filter span_too_long (fs_spans ?st))"
    by (simp add: fs_inv_def)
  show ?thesis
  proof (cases "func_start ?st")
    case None
    with vs show ?thesis
      by (simp add: function_size_violations_def function_spans_def fs_run_def)
  next
    case (Some s)
    with vs show ?thesis
      by (simp add: function_size_violations_def function_spans_def fs_run_def fs_close_def
          Let_def span_violation_def span_too_long_def)
  qed
qed

lemma span_bounds_length: "length (span_bounds ss n) = length ss"
  by (cases ss) (simp_all add: span_bounds_def)

lemma span_bounds_nth:
  assumes "j < length ss"
  shows "span_bounds ss n ! j = (ss ! j, if Suc j < length ss then ss ! Suc j else n)"
proof -
  have "j < length (tl ss @ [n])" using assms by simp
  then have "span_bounds ss n ! j = (ss ! j, (tl ss @ [n]) ! j)"
    using assms by (simp add: span_bounds_def)
  moreover have "(tl ss @ [n]) ! j = (if Suc j < length ss then ss ! Suc j else n)"
    using assms by (auto simp: nth_append nth_tl)
  ultimately show ?thesis by simp
qed

lemma function_spans_length: "length (function_spans lines) = length (start_indices lines)"
  by (simp add: function_spans_eq span_bounds_length)

lemma function_spans_nth:
  assumes "j < length (start_indices lines)"
  shows "function_spans lines ! j
           = (extract_name (lines ! (start_indices lines ! j)), start_indices lines ! j,
              if Suc j < length (start_indices lines) then start_indices lines ! Suc j
              else length lines)"
  using assms
  by (simp add: function_spans_eq span_bounds_length span_bounds_nth named_span_def)

lemma start_indices_mono:
  "j < k \<Longrightarrow> k < length (start_indices xs) \<Longrightarrow> start_indices xs ! j < start_indices xs ! k"
  using start_indices_sorted [of xs] by (simp add: sorted_wrt_iff_nth_less)

lemma start_indices_nth_less:
  "j < length (start_indices xs) \<Longrightarrow> start_indices xs ! j < length xs"
  by (simp add: start_indices_less)

lemma start_indices_nth_start:
  "j < length (start_indices xs) \<Longrightarrow> is_func_start (xs ! (start_indices xs ! j))"
  by (simp add: start_indices_start)

lemma start_indices_gap:
  assumes j: "j < length (start_indices xs)"
    and i: "start_indices xs ! j < i"
       "i < (if Suc j < length (start_indices xs) then start_indices xs ! Suc j else length xs)"
  shows "\<not> is_func_start (xs ! i)"
proof
  let ?ss = "start_indices xs"
  assume st: "is_func_start (xs ! i)"
  have "i < length xs"
  proof (cases "Suc j < length ?ss")
    case True
    then have "?ss ! Suc j < length xs" by (rule start_indices_nth_less)
    with i(2) True show ?thesis by simp
  next
    case False
    with i(2) show ?thesis by simp
  qed
  with st have "i \<in> set ?ss" by (simp add: start_indices_def)
  then obtain m where m: "m < length ?ss" "?ss ! m = i" by (auto simp: in_set_conv_nth)
  have "j < m"
  proof (rule ccontr)
    assume "\<not> j < m"
    then have "m = j \<or> m < j" by auto
    then show False
    proof
      assume "m = j" with m i(1) show False by simp
    next
      assume "m < j"
      from start_indices_mono [OF this j] m i(1) show False by simp
    qed
  qed
  then have sj: "Suc j < length ?ss" using m(1) by simp
  have "?ss ! Suc j \<le> ?ss ! m"
  proof (cases "Suc j = m")
    case True then show ?thesis by simp
  next
    case False
    with \<open>j < m\<close> have "Suc j < m" by simp
    from start_indices_mono [OF this m(1)] show ?thesis by simp
  qed
  with i(2) sj m(2) show False by simp
qed

text \<open>
  C8: the loop closes exactly one span per recognized start line; the spans start at the
  recognized start lines in order, each runs to the next recognized start (exclusive) or to
  the end of the file for the last one, no recognized start lies strictly inside a span,
  every span is non-empty, and spans do not overlap.
\<close>

theorem function_spans_cover:
  "length (function_spans lines) = length (filter is_func_start lines)
   \<and> map (\<lambda>sp. fst (snd sp)) (function_spans lines) = start_indices lines
   \<and> (\<forall>j < length (function_spans lines).
         case function_spans lines ! j of (name, s, e) \<Rightarrow>
           is_func_start (lines ! s) \<and> name = extract_name (lines ! s)
           \<and> s < e \<and> e \<le> length lines
           \<and> e = (if Suc j < length (function_spans lines)
                  then fst (snd (function_spans lines ! Suc j)) else length lines)
           \<and> (\<forall>i. s < i \<and> i < e \<longrightarrow> \<not> is_func_start (lines ! i)))
   \<and> (\<forall>j k. j < k \<and> k < length (function_spans lines)
         \<longrightarrow> snd (snd (function_spans lines ! j)) \<le> fst (snd (function_spans lines ! k)))"
proof (intro conjI allI impI)
  let ?ss = "start_indices lines"
  show "length (function_spans lines) = length (filter is_func_start lines)"
    by (simp add: function_spans_length start_indices_count)
  show "map (\<lambda>sp. fst (snd sp)) (function_spans lines) = ?ss"
    by (rule nth_equalityI) (simp_all add: function_spans_length function_spans_nth)
  {
    fix j assume "j < length (function_spans lines)"
    then have j: "j < length ?ss" by (simp add: function_spans_length)
    let ?e = "if Suc j < length ?ss then ?ss ! Suc j else length lines"
    have nth: "function_spans lines ! j = (extract_name (lines ! (?ss ! j)), ?ss ! j, ?e)"
      using j by (rule function_spans_nth)
    have next_start: "Suc j < length ?ss \<Longrightarrow> fst (snd (function_spans lines ! Suc j)) = ?ss ! Suc j"
      by (simp add: function_spans_nth)
    have lt: "?ss ! j < ?e"
      using j start_indices_mono [of j "Suc j" lines] start_indices_nth_less [OF j] by simp
    have le: "?e \<le> length lines"
      using start_indices_nth_less [of "Suc j" lines] by (simp add: less_imp_le)
    have gap: "\<forall>i. ?ss ! j < i \<and> i < ?e \<longrightarrow> \<not> is_func_start (lines ! i)"
      using start_indices_gap [OF j] by blast
    show "case function_spans lines ! j of (name, s, e) \<Rightarrow>
           is_func_start (lines ! s) \<and> name = extract_name (lines ! s)
           \<and> s < e \<and> e \<le> length lines
           \<and> e = (if Suc j < length (function_spans lines)
                  then fst (snd (function_spans lines ! Suc j)) else length lines)
           \<and> (\<forall>i. s < i \<and> i < e \<longrightarrow> \<not> is_func_start (lines ! i))"
      unfolding nth using start_indices_nth_start [OF j] lt le gap next_start
      by (simp add: function_spans_length)
  }
  {
    fix j k assume jk: "j < k \<and> k < length (function_spans lines)"
    then have k: "k < length ?ss" and j: "j < length ?ss" and sj: "Suc j < length ?ss"
      by (simp_all add: function_spans_length)
    have "?ss ! Suc j \<le> ?ss ! k"
    proof (cases "Suc j = k")
      case True then show ?thesis by simp
    next
      case False
      with jk have "Suc j < k" by simp
      from start_indices_mono [OF this k] show ?thesis by simp
    qed
    then show "snd (snd (function_spans lines ! j)) \<le> fst (snd (function_spans lines ! k))"
      using j k sj by (simp add: function_spans_nth)
  }
qed

theorem function_spans_cover_witness:
  "map is_func_start three_functions_file = [True, False, False, True, False, True, False]
   \<and> function_spans three_functions_file = [(''a'', 0, 3), (''b'', 3, 5), (''c'', 5, 7)]
   \<and> length (function_spans three_functions_file)
       = length (filter is_func_start three_functions_file)
   \<and> map (\<lambda>sp. fst (snd sp)) (function_spans three_functions_file)
       = start_indices three_functions_file"
proof -
  have a: "map is_func_start three_functions_file = [True, False, False, True, False, True, False]"
    by code_simp
  have b: "function_spans three_functions_file = [(''a'', 0, 3), (''b'', 3, 5), (''c'', 5, 7)]"
    by code_simp
  from function_spans_cover [of three_functions_file]
  have c: "length (function_spans three_functions_file)
       = length (filter is_func_start three_functions_file)"
    and d: "map (\<lambda>sp. fst (snd sp)) (function_spans three_functions_file)
       = start_indices three_functions_file"
    by blast+
  from a b c d show ?thesis by blast
qed

lemma drops_down_set: "set (drops_down k s) = {drop j s | j. j \<le> k}"
proof (induction k)
  case 0
  then show ?case by simp
next
  case (Suc k)
  have "{drop j s | j. j \<le> Suc k} = insert (drop (Suc k) s) {drop j s | j. j \<le> k}"
    by (auto simp: le_Suc_eq)
  with Suc show ?case by simp
qed

lemma rx_match_Lit: "rx_match (Lit l) s \<longleftrightarrow> take (length l) s = l"
  by (simp add: rx_match_def)

lemma rx_match_Alt: "rx_match (Alt a b) s \<longleftrightarrow> rx_match a s \<or> rx_match b s"
  by (simp add: rx_match_def)

lemma rx_match_Seq: "rx_match (Seq a b) s \<longleftrightarrow> (\<exists>t \<in> set (rx_rests a s). rx_match b t)"
  by (auto simp: rx_match_def)

lemma rx_rests_Star: "set (rx_rests (Star c) s) = {drop j s | j. j \<le> length (takeWhile (in_class c) s)}"
  by (simp add: drops_down_set)

lemma lstrip_in_Star: "lstrip s \<in> set (rx_rests (Star Space) s)"
proof -
  have "lstrip s = drop (length (takeWhile is_space s)) s"
    by (simp add: lstrip_def dropWhile_eq_drop)
  moreover have "in_class Space = is_space" by (rule ext) simp
  ultimately show ?thesis unfolding rx_rests_Star by auto
qed

lemma def_is_func_start:
  assumes "take 4 (lstrip line) = ''def ''"
  shows "is_func_start line"
proof -
  from assms have "take (length ''def '') (lstrip line) = ''def ''"
    by (simp add: eval_nat_numeral)
  then have "rx_match (Lit ''def '') (lstrip line)" by (simp only: rx_match_Lit)
  then have "rx_match func_alternatives (lstrip line)"
    by (simp add: func_alternatives_def rx_match_Alt)
  with lstrip_in_Star [of line] show ?thesis
    unfolding is_func_start_def func_pattern_def rx_match_Seq by blast
qed

lemma start_indices_Cons:
  "start_indices (x # xs) = (if is_func_start x then [0] else []) @ map Suc (start_indices xs)"
proof -
  have "[0..<length (x # xs)] = 0 # map Suc [0..<length xs]"
    by (simp add: upt_conv_Cons map_Suc_upt del: upt_Suc)
  then show ?thesis
    by (simp add: start_indices_def filter_map comp_def del: upt_Suc)
qed

lemma start_indices_none: "\<forall>l \<in> set xs. \<not> is_func_start l \<Longrightarrow> start_indices xs = []"
  by (auto simp: start_indices_def filter_empty_conv)

text \<open>
  C3: the messages of check_function_size are, in order, the FunctionTooLong messages of the
  spans between consecutive recognized starts (the last one closed by the end of the file)
  whose length strictly exceeds MAX_FUNCTION_LINES, each citing the 1-based start line, the
  name extracted from the start line and the length. In particular a 60-line file whose
  first line starts with \<^verbatim>\<open>def \<close> and that has no other start line yields exactly one
  message, citing line 1 and 60 lines.
\<close>

theorem function_too_long_exactly:
  "check_function_size lines
     = map (\<lambda>(s, e). render (FunctionTooLong (s + 1) (extract_name (lines ! s)) (e - s)))
         (filter (\<lambda>(s, e). MAX_FUNCTION_LINES < e - s)
            (span_bounds (start_indices lines) (length lines)))
   \<and> function_size_violations lines
     = map (\<lambda>(s, e). FunctionTooLong (s + 1) (extract_name (lines ! s)) (e - s))
         (filter (\<lambda>(s, e). MAX_FUNCTION_LINES < e - s)
            (span_bounds (start_indices lines) (length lines)))
   \<and> (length lines = 60 \<and> take 4 (lstrip (hd lines)) = ''def ''
        \<and> (\<forall>l \<in> set (tl lines). \<not> is_func_start l)
       \<longrightarrow> function_size_violations lines = [FunctionTooLong 1 (extract_name (hd lines)) 60]
           \<and> check_function_size lines
               = [''  Line 1: function '' @ [QUOTE] @ extract_name (hd lines) @ [QUOTE]
                    @ '' is 60 lines (max 50)''])"
proof -
  have general: "function_size_violations lines
     = map (\<lambda>(s, e). FunctionTooLong (s + 1) (extract_name (lines ! s)) (e - s))
         (filter (\<lambda>(s, e). MAX_FUNCTION_LINES < e - s)
            (span_bounds (start_indices lines) (length lines)))"
    unfolding function_size_violations_eq function_spans_eq
    by (simp add: filter_map comp_def span_violation_def span_too_long_def named_span_def
        case_prod_unfold)
  have rendered: "check_function_size lines
     = map (\<lambda>(s, e). render (FunctionTooLong (s + 1) (extract_name (lines ! s)) (e - s)))
         (filter (\<lambda>(s, e). MAX_FUNCTION_LINES < e - s)
            (span_bounds (start_indices lines) (length lines)))"
    unfolding check_function_size_def general by (simp add: comp_def case_prod_unfold)
  have scenario: "function_size_violations lines = [FunctionTooLong 1 (extract_name (hd lines)) 60]"
    if len: "length lines = 60" and d: "take 4 (lstrip (hd lines)) = ''def ''"
      and rest: "\<forall>l \<in> set (tl lines). \<not> is_func_start l"
  proof -
    from len obtain l0 ls where l: "lines = l0 # ls" by (cases lines) auto
    with d have "is_func_start l0" by (simp add: def_is_func_start)
    moreover from rest l have "start_indices ls = []" by (simp add: start_indices_none)
    ultimately have "start_indices lines = [0]" by (simp add: l start_indices_Cons)
    then show ?thesis
      unfolding general using len l by (simp add: span_bounds_def MAX_FUNCTION_LINES_def)
  qed
  have message: "render (FunctionTooLong 1 name 60)
      = ''  Line 1: function '' @ [QUOTE] @ name @ [QUOTE] @ '' is 60 lines (max 50)''" for name
    by (simp add: show_nat.simps digit_char_def MAX_FUNCTION_LINES_def)
  have scenario_rendered: "check_function_size lines
               = [''  Line 1: function '' @ [QUOTE] @ extract_name (hd lines) @ [QUOTE]
                    @ '' is 60 lines (max 50)'']"
    if "length lines = 60" and "take 4 (lstrip (hd lines)) = ''def ''"
      and "\<forall>l \<in> set (tl lines). \<not> is_func_start l"
    unfolding check_function_size_def scenario [OF that] using message by simp
  from general rendered scenario scenario_rendered show ?thesis by blast
qed

theorem function_too_long_exactly_witness:
  "length sixty_line_function = 60
   \<and> take 4 (lstrip (hd sixty_line_function)) = ''def ''
   \<and> list_all (\<lambda>l. \<not> is_func_start l) (tl sixty_line_function)
   \<and> extract_name (hd sixty_line_function) = ''foo''
   \<and> function_size_violations sixty_line_function = [FunctionTooLong 1 ''foo'' 60]
   \<and> check_function_size sixty_line_function
       = [''  Line 1: function '' @ [QUOTE] @ ''foo'' @ [QUOTE] @ '' is 60 lines (max 50)'']"
proof -
  have a: "length sixty_line_function = 60" by (simp add: sixty_line_function_def)
  have b: "take 4 (lstrip (hd sixty_line_function)) = ''def ''" by code_simp
  have c: "list_all (\<lambda>l. \<not> is_func_start l) (tl sixty_line_function)" by code_simp
  have d: "extract_name (hd sixty_line_function) = ''foo''" by code_simp
  from c have c': "\<forall>l \<in> set (tl sixty_line_function). \<not> is_func_start l"
    by (simp add: list_all_iff)
  from function_too_long_exactly [of sixty_line_function] a b c'
  have e: "function_size_violations sixty_line_function
      = [FunctionTooLong 1 (extract_name (hd sixty_line_function)) 60]"
    and f: "check_function_size sixty_line_function
       = [''  Line 1: function '' @ [QUOTE] @ extract_name (hd sixty_line_function) @ [QUOTE]
            @ '' is 60 lines (max 50)'']"
    by blast+
  from a b c d e f show ?thesis by simp
qed

subsection \<open>Stale comment runs\<close>

lemma trailing_run_extend: "P x \<Longrightarrow> trailing_run P xs n \<Longrightarrow> trailing_run P (xs @ [x]) (Suc n)"
  unfolding trailing_run_def
  by (auto simp: nth_append less_Suc_eq)

lemma trailing_run_reset: "\<not> P x \<Longrightarrow> trailing_run P (xs @ [x]) 0"
  unfolding trailing_run_def by simp

lemma closed_run_extend:
  assumes "P x"
  shows "closed_run P (xs @ [x]) s n \<longleftrightarrow> closed_run P xs s n"
proof
  assume c: "closed_run P (xs @ [x]) s n"
  then have le: "s + n \<le> length xs" and np: "\<not> P ((xs @ [x]) ! (s + n))"
    by (auto simp: closed_run_def is_run_def)
  with assms have lt: "s + n < length xs" by (cases "s + n = length xs") auto
  then have "s - 1 < length xs" "\<And>k. k < n \<Longrightarrow> s + k < length xs"
    by simp_all
  with c lt show "closed_run P xs s n"
    unfolding closed_run_def is_run_def by (simp add: nth_append)
next
  assume c: "closed_run P xs s n"
  then have lt: "s + n < length xs" by (simp add: closed_run_def)
  then have "s - 1 < length xs" "s + n < length (xs @ [x])" "\<And>k. k < n \<Longrightarrow> s + k < length xs"
    by simp_all
  with c lt show "closed_run P (xs @ [x]) s n"
    unfolding closed_run_def is_run_def by (simp add: nth_append)
qed

lemma closed_run_reset:
  assumes "\<not> P x"
  shows "closed_run P (xs @ [x]) s n \<longleftrightarrow> is_run P xs s n"
  using assms by (auto simp: closed_run_def is_run_def nth_append)

lemma is_run_cases:
  assumes t: "trailing_run P xs rl"
  shows "is_run P xs s n \<longleftrightarrow>
           closed_run P xs s n \<or> (0 < rl \<and> n = rl \<and> s = length xs - rl)"
proof
  assume r: "is_run P xs s n"
  show "closed_run P xs s n \<or> (0 < rl \<and> n = rl \<and> s = length xs - rl)"
  proof (cases "s + n < length xs")
    case True
    with r show ?thesis by (simp add: closed_run_def)
  next
    case False
    with r have e: "s + n = length xs" and n: "0 < n" by (auto simp: is_run_def)
    have "n = rl"
    proof (rule ccontr)
      assume "n \<noteq> rl"
      then have "n < rl \<or> rl < n" by auto
      then show False
      proof
        assume lt: "n < rl"
        with t e have s: "s \<noteq> 0" by (auto simp: trailing_run_def)
        with r have np: "\<not> P (xs ! (s - 1))" by (auto simp: is_run_def)
        from lt have "rl - n - 1 < rl" by arith
        with t have "P (xs ! (length xs - rl + (rl - n - 1)))"
          unfolding trailing_run_def by blast
        moreover from t lt e s have "length xs - rl + (rl - n - 1) = s - 1"
          by (auto simp: trailing_run_def)
        ultimately show False using np by simp
      next
        assume gt: "rl < n"
        with t e have np: "\<not> P (xs ! (length xs - rl - 1))" by (auto simp: trailing_run_def)
        from gt have "n - rl - 1 < n" by arith
        with r have "P (xs ! (s + (n - rl - 1)))"
          unfolding is_run_def by blast
        moreover from gt e have "s + (n - rl - 1) = length xs - rl - 1" by auto
        ultimately show False using np by simp
      qed
    qed
    with e n show ?thesis by auto
  qed
next
  assume "closed_run P xs s n \<or> (0 < rl \<and> n = rl \<and> s = length xs - rl)"
  then show "is_run P xs s n"
  proof
    assume "closed_run P xs s n" then show ?thesis by (simp add: closed_run_def)
  next
    assume "0 < rl \<and> n = rl \<and> s = length xs - rl"
    with t show ?thesis by (auto simp: is_run_def trailing_run_def)
  qed
qed

lemma cb_report_inv:
  assumes inv: "cb_inv xs st"
  shows "\<exists>st1. cb_report st = Inr st1 \<and> run_start st1 = run_start st
           \<and> run_length st1 = run_length st \<and> stale_runs xs (cb_violations st1)"
proof -
  let ?rl = "run_length st"
  let ?P = is_stale_line
  from inv have t: "trailing_run ?P xs ?rl"
    and rs: "run_start st = (if ?rl = 0 then None else Some (length xs - ?rl))"
    and d: "distinct (cb_violations st)"
    and m: "\<And>v. v \<in> set (cb_violations st) \<longleftrightarrow>
            (\<exists>s n. v = StaleCommentBlock (s + 1) (s + n) n
               \<and> closed_run ?P xs s n \<and> MAX_COMMENTED_BLOCK \<le> n)"
    unfolding cb_inv_def by blast+
  note cases = is_run_cases [OF t]
  show ?thesis
  proof (cases "MAX_COMMENTED_BLOCK \<le> ?rl")
    case False
    then have r: "cb_report st = Inr st" by (simp add: cb_report_def)
    have "stale_runs xs (cb_violations st)"
      unfolding stale_runs_def using d m cases False by auto
    with r show ?thesis by simp
  next
    case True
    then have pos: "0 < ?rl" by (simp add: MAX_COMMENTED_BLOCK_def)
    from t have le: "?rl \<le> length xs" by (simp add: trailing_run_def)
    let ?s = "length xs - ?rl"
    let ?v = "StaleCommentBlock (?s + 1) (?s + ?rl) ?rl"
    let ?st1 = "st\<lparr>cb_violations := cb_violations st @ [?v]\<rparr>"
    from True pos rs have r: "cb_report st = Inr ?st1" by (simp add: cb_report_def)
    have new: "?v \<notin> set (cb_violations st)"
    proof
      assume "?v \<in> set (cb_violations st)"
      then obtain s n where "?v = StaleCommentBlock (s + 1) (s + n) n" "closed_run ?P xs s n"
        using m by blast
      then have "s = ?s" "n = ?rl" "s + n < length xs" by (auto simp: closed_run_def)
      with le show False by simp
    qed
    have mem: "v \<in> set (cb_violations st @ [?v]) \<longleftrightarrow>
            (\<exists>s n. v = StaleCommentBlock (s + 1) (s + n) n
               \<and> is_run ?P xs s n \<and> MAX_COMMENTED_BLOCK \<le> n)" for v
    proof
      assume "v \<in> set (cb_violations st @ [?v])"
      then have "v \<in> set (cb_violations st) \<or> v = ?v" by auto
      then show "\<exists>s n. v = StaleCommentBlock (s + 1) (s + n) n
               \<and> is_run ?P xs s n \<and> MAX_COMMENTED_BLOCK \<le> n"
      proof
        assume "v \<in> set (cb_violations st)"
        with m cases show ?thesis by blast
      next
        assume "v = ?v"
        moreover have "is_run ?P xs ?s ?rl" using cases pos by blast
        ultimately show ?thesis using True by blast
      qed
    next
      assume "\<exists>s n. v = StaleCommentBlock (s + 1) (s + n) n
               \<and> is_run ?P xs s n \<and> MAX_COMMENTED_BLOCK \<le> n"
      then obtain s n where v: "v = StaleCommentBlock (s + 1) (s + n) n"
        and run: "is_run ?P xs s n" and big: "MAX_COMMENTED_BLOCK \<le> n" by blast
      from run cases have "closed_run ?P xs s n \<or> (n = ?rl \<and> s = ?s)" by blast
      then show "v \<in> set (cb_violations st @ [?v])"
      proof
        assume "closed_run ?P xs s n"
        with v big m show ?thesis by auto
      next
        assume "n = ?rl \<and> s = ?s"
        with v show ?thesis by simp
      qed
    qed
    have "stale_runs xs (cb_violations ?st1)"
      unfolding stale_runs_def using d new mem by simp
    with r show ?thesis by simp
  qed
qed

lemma cb_inv_init: "cb_inv [] cb_init"
  by (simp add: cb_inv_def cb_init_def trailing_run_def closed_run_def)

lemma cb_step_inv:
  assumes inv: "cb_inv xs st"
  shows "\<exists>st1. cb_step st (length xs, x) = Inr st1 \<and> cb_inv (xs @ [x]) st1"
proof (cases "is_stale_line x")
  case True
  let ?st1 = "st\<lparr>run_start := (case run_start st of None \<Rightarrow> Some (length xs) | Some s \<Rightarrow> Some s),
                  run_length := run_length st + 1\<rparr>"
  from True have step: "cb_step st (length xs, x) = Inr ?st1" by (simp add: cb_step_def)
  from inv have le: "run_length st \<le> length xs" by (simp add: cb_inv_def trailing_run_def)
  have "cb_inv (xs @ [x]) ?st1"
    using inv True le
    unfolding cb_inv_def
    by (simp add: trailing_run_extend closed_run_extend)
  with step show ?thesis by blast
next
  case False
  from cb_report_inv [OF inv] obtain st1 where r: "cb_report st = Inr st1"
    and runs: "stale_runs xs (cb_violations st1)" by blast
  let ?st2 = "st1\<lparr>run_start := None, run_length := 0\<rparr>"
  from False r have step: "cb_step st (length xs, x) = Inr ?st2" by (simp add: cb_step_def)
  have "cb_inv (xs @ [x]) ?st2"
    using runs False
    unfolding cb_inv_def stale_runs_def
    by (simp add: trailing_run_reset closed_run_reset)
  with step show ?thesis by blast
qed

lemma cb_loop_inv: "\<exists>st. cb_loop cb_init (enumerate 0 xs) = Inr st \<and> cb_inv xs st"
proof (induction xs rule: rev_induct)
  case Nil
  then show ?case by (simp add: cb_inv_init)
next
  case (snoc x xs)
  then obtain st where st: "cb_loop cb_init (enumerate 0 xs) = Inr st" "cb_inv xs st" by blast
  from cb_step_inv [OF st(2)] obtain st1 where
    "cb_step st (length xs, x) = Inr st1" "cb_inv (xs @ [x]) st1" by blast
  with st(1) show ?case by (simp add: enumerate_snoc cb_loop_snoc)
qed

lemma commented_block_violations_runs:
  "\<exists>vs. commented_block_violations lines = Inr vs \<and> stale_runs lines vs"
proof -
  from cb_loop_inv obtain st where st: "cb_loop cb_init (enumerate 0 lines) = Inr st"
    "cb_inv lines st" by blast
  from cb_report_inv [OF st(2)] obtain st1 where
    "cb_report st = Inr st1" "stale_runs lines (cb_violations st1)" by blast
  with st(1) show ?thesis by (simp add: commented_block_violations_def)
qed

lemma takeWhile_dropWhile_Nil: "takeWhile P (dropWhile P xs) = []"
  by (induction xs) auto

lemma strip_no_leading_space: "takeWhile is_space (strip s) = []"
  by (simp add: strip_def lstrip_def takeWhile_dropWhile_Nil)

lemma rx_search_iff: "rx_search r s \<longleftrightarrow> (\<exists>i. rx_match r (drop i s))"
proof (induction s)
  case Nil
  then show ?case by simp
next
  case (Cons c cs)
  show ?case
  proof
    assume "rx_search r (c # cs)"
    then have "rx_match r (c # cs) \<or> rx_search r cs" by simp
    then show "\<exists>i. rx_match r (drop i (c # cs))"
    proof
      assume "rx_match r (c # cs)"
      then have "rx_match r (drop 0 (c # cs))" by simp
      then show ?thesis by blast
    next
      assume "rx_search r cs"
      with Cons obtain i where "rx_match r (drop i cs)" by blast
      then have "rx_match r (drop (Suc i) (c # cs))" by simp
      then show ?thesis by blast
    qed
  next
    assume "\<exists>i. rx_match r (drop i (c # cs))"
    then obtain i where i: "rx_match r (drop i (c # cs))" by blast
    show "rx_search r (c # cs)"
    proof (cases i)
      case 0
      with i show ?thesis by simp
    next
      case (Suc j)
      with i have "rx_match r (drop j cs)" by simp
      with Cons show ?thesis by auto
    qed
  qed
qed

lemma comment_pattern_iff:
  "rx_match comment_pattern (strip line) \<longleftrightarrow> comment_classified line"
proof -
  have "in_class Space = is_space" by (rule ext) simp
  then have "rx_rests (Star Space) (strip line) = [strip line]"
    by (simp add: strip_no_leading_space)
  then show ?thesis
    by (simp add: comment_pattern_def comment_classified_def comment_markers_def
        rx_match_Seq rx_match_Alt rx_match_Lit)
qed

lemma code_keywords_iff:
  "rx_match code_keywords s \<longleftrightarrow> (\<exists>k \<in> set code_signals. take (length k) s = k)"
  by (simp add: code_keywords_def code_signals_def rx_match_Alt rx_match_Lit)

lemma is_stale_line_iff:
  "is_stale_line line \<longleftrightarrow> comment_classified line \<and> contains_code_signal (strip line)"
  unfolding is_stale_line_def Let_def comment_pattern_iff rx_search_iff code_keywords_iff
    contains_code_signal_def
  by blast

lemma occurs_iff: "(\<exists>i. take (length k) (drop i s) = k) \<longleftrightarrow> (\<exists>p q. s = p @ k @ q)"
proof
  assume "\<exists>i. take (length k) (drop i s) = k"
  then obtain i where i: "take (length k) (drop i s) = k" by blast
  have "s = take i s @ drop i s" by simp
  also have "drop i s = take (length k) (drop i s) @ drop (length k) (drop i s)"
    by (rule append_take_drop_id [symmetric])
  finally have "s = take i s @ k @ drop (length k) (drop i s)" using i by simp
  then show "\<exists>p q. s = p @ k @ q" by blast
next
  assume "\<exists>p q. s = p @ k @ q"
  then obtain p q where "s = p @ k @ q" by blast
  then have "take (length k) (drop (length p) s) = k" by simp
  then show "\<exists>i. take (length k) (drop i s) = k" by blast
qed

lemma strip_infix: "\<exists>a b. line = a @ strip line @ b"
proof -
  have "rstrip line @ rev (takeWhile is_space (rev line))
      = rev (takeWhile is_space (rev line) @ dropWhile is_space (rev line))"
    by (simp only: rstrip_def rev_append)
  also have "\<dots> = line" by (simp only: takeWhile_dropWhile_id rev_rev_ident)
  finally have r: "line = rstrip line @ rev (takeWhile is_space (rev line))" by simp
  have "rstrip line = takeWhile is_space (rstrip line) @ strip line"
    by (simp add: strip_def lstrip_def)
  with r have "line = takeWhile is_space (rstrip line) @ strip line
      @ rev (takeWhile is_space (rev line))"
    by (metis append.assoc)
  then show ?thesis by blast
qed

lemma contains_code_signal_strip:
  assumes "contains_code_signal (strip line)"
  shows "contains_code_signal line"
proof -
  from assms obtain k p q where k: "k \<in> set code_signals" and s: "strip line = p @ k @ q"
    unfolding contains_code_signal_def occurs_iff by blast
  from strip_infix obtain a b where "line = a @ strip line @ b" by blast
  with s have "line = (a @ p) @ k @ (q @ b)" by simp
  then have "\<exists>p q. line = p @ k @ q" by blast
  with k show ?thesis unfolding contains_code_signal_def occurs_iff by blast
qed

lemma distinct_singleton: "distinct vs \<Longrightarrow> set vs = {a} \<Longrightarrow> vs = [a]"
proof (cases vs)
  case Nil
  assume "set vs = {a}" with Nil show ?thesis by simp
next
  case (Cons v ws)
  assume d: "distinct vs" and s: "set vs = {a}"
  with Cons have "v = a" by auto
  moreover have "ws = []"
  proof (cases ws)
    case Nil then show ?thesis .
  next
    case (Cons w ws')
    with \<open>vs = v # ws\<close> s have "w = a" by auto
    with d \<open>vs = v # ws\<close> Cons \<open>v = a\<close> show ?thesis by simp
  qed
  ultimately show ?thesis using Cons by simp
qed

lemma all_stale_runs:
  assumes "\<forall>l \<in> set xs. P l" "xs \<noteq> []"
  shows "is_run P xs s n \<longleftrightarrow> s = 0 \<and> n = length xs"
proof -
  have t: "trailing_run P xs (length xs)" using assms(1) by (simp add: trailing_run_def)
  have "\<not> closed_run P xs s n" using assms(1) by (auto simp: closed_run_def is_run_def)
  with is_run_cases [OF t] assms(2) show ?thesis by auto
qed

lemma run_then_break:
  assumes "\<forall>l \<in> set xs. P l" "xs \<noteq> []" "\<not> P x"
  shows "is_run P (xs @ [x]) s n \<longleftrightarrow> s = 0 \<and> n = length xs"
proof -
  have "trailing_run P (xs @ [x]) 0" using assms(3) by (rule trailing_run_reset)
  from is_run_cases [OF this]
  have "is_run P (xs @ [x]) s n \<longleftrightarrow> closed_run P (xs @ [x]) s n" by simp
  also have "\<dots> \<longleftrightarrow> is_run P xs s n" using assms(3) by (rule closed_run_reset)
  also have "\<dots> \<longleftrightarrow> s = 0 \<and> n = length xs" using assms(1,2) by (rule all_stale_runs)
  finally show ?thesis .
qed

text \<open>
  C4 (as amended): a line belongs to a stale-comment run exactly when its text, stripped of
  leading and trailing whitespace, starts with a comment marker and contains one of the code
  signals (such a line contains the signal, but a line may contain \<^verbatim>\<open>def \<close> only with
  the space in its trailing whitespace, and then does not count). The detector never raises,
  and its messages are, without repetition, those of the maximal runs of such lines (a run is
  bounded on each side by a line failing the condition or by the start or end of the file) of
  length at least MAX_COMMENTED_BLOCK, each cited with its first line, last line and length.
  In particular 12 such lines followed by one comment line whose stripped text has no code
  signal yield the one message for lines 1 to 12.
\<close>

theorem stale_comment_runs:
  "(is_stale_line line \<longleftrightarrow> comment_classified line \<and> contains_code_signal (strip line))
   \<and> (contains_code_signal (strip line) \<longrightarrow> contains_code_signal line)
   \<and> (\<exists>vs. commented_block_violations lines = Inr vs
         \<and> check_commented_blocks lines = Inr (map render vs)
         \<and> distinct vs
         \<and> (\<forall>v. v \<in> set vs \<longleftrightarrow>
               (\<exists>s n. v = StaleCommentBlock (s + 1) (s + n) n
                  \<and> is_run is_stale_line lines s n \<and> MAX_COMMENTED_BLOCK \<le> n)))
   \<and> (length lines = 13 \<and> (\<forall>l \<in> set (take 12 lines). is_stale_line l)
         \<and> comment_classified (lines ! 12) \<and> \<not> contains_code_signal (strip (lines ! 12))
       \<longrightarrow> commented_block_violations lines = Inr [StaleCommentBlock 1 12 12]
           \<and> check_commented_blocks lines = Inr [''  Lines 1-12: 12 lines of commented-out code''])"
proof -
  have p1: "is_stale_line line \<longleftrightarrow> comment_classified line \<and> contains_code_signal (strip line)"
    by (rule is_stale_line_iff)
  have p2: "contains_code_signal (strip line) \<longrightarrow> contains_code_signal line"
    using contains_code_signal_strip by blast
  from commented_block_violations_runs [of lines] obtain vs where
    vs: "commented_block_violations lines = Inr vs" "stale_runs lines vs" by blast
  from vs(1) have "check_commented_blocks lines = Inr (map render vs)"
    by (simp add: check_commented_blocks_def)
  with vs have p3: "\<exists>vs. commented_block_violations lines = Inr vs
         \<and> check_commented_blocks lines = Inr (map render vs)
         \<and> distinct vs
         \<and> (\<forall>v. v \<in> set vs \<longleftrightarrow>
               (\<exists>s n. v = StaleCommentBlock (s + 1) (s + n) n
                  \<and> is_run is_stale_line lines s n \<and> MAX_COMMENTED_BLOCK \<le> n))"
    by (auto simp: stale_runs_def)
  have p4: "commented_block_violations lines = Inr [StaleCommentBlock 1 12 12]
           \<and> check_commented_blocks lines = Inr [''  Lines 1-12: 12 lines of commented-out code'']"
    if a: "length lines = 13 \<and> (\<forall>l \<in> set (take 12 lines). is_stale_line l)
         \<and> comment_classified (lines ! 12) \<and> \<not> contains_code_signal (strip (lines ! 12))"
  proof -
  from a have len: "length lines = 13" and pre: "\<forall>l \<in> set (take 12 lines). is_stale_line l"
    and last: "\<not> is_stale_line (lines ! 12)"
    by (simp_all add: is_stale_line_iff)
  from len have split: "lines = take 12 lines @ [lines ! 12]"
    using take_Suc_conv_app_nth [of 12 lines] by simp
  from len have ne: "take 12 lines \<noteq> []" and l12: "length (take 12 lines) = 12" by auto
  have runs: "is_run is_stale_line lines s n \<longleftrightarrow> s = 0 \<and> n = 12" for s n
    using run_then_break [OF pre ne last, of s n] split l12 by simp
  from commented_block_violations_runs [of lines] obtain vs where
    vs: "commented_block_violations lines = Inr vs" "stale_runs lines vs" by blast
  from vs(2) have d: "distinct vs"
    and m: "\<And>v. v \<in> set vs \<longleftrightarrow>
          (\<exists>s n. v = StaleCommentBlock (s + 1) (s + n) n
                  \<and> is_run is_stale_line lines s n \<and> MAX_COMMENTED_BLOCK \<le> n)"
    unfolding stale_runs_def by blast+
  have "set vs = {StaleCommentBlock 1 12 12}"
    using m runs by (auto simp: MAX_COMMENTED_BLOCK_def)
  with d have "vs = [StaleCommentBlock 1 12 12]" by (rule distinct_singleton)
  with vs(1) have r: "commented_block_violations lines = Inr [StaleCommentBlock 1 12 12]" by simp
  have "render (StaleCommentBlock 1 12 12) = ''  Lines 1-12: 12 lines of commented-out code''"
    by (simp add: show_nat.simps digit_char_def)
  with r have "check_commented_blocks lines = Inr [''  Lines 1-12: 12 lines of commented-out code'']"
    by (simp add: check_commented_blocks_def)
  with r show ?thesis by blast
  qed
  from p1 p2 p3 p4 show ?thesis by blast
qed

theorem stale_comment_runs_witness:
  "length twelve_stale_then_prose = 13
   \<and> list_all is_stale_line (take 12 twelve_stale_then_prose)
   \<and> strip (twelve_stale_then_prose ! 12) = ''# see the notes above''
   \<and> comment_classified (twelve_stale_then_prose ! 12)
   \<and> \<not> is_stale_line (twelve_stale_then_prose ! 12)
   \<and> \<not> contains_code_signal (strip (twelve_stale_then_prose ! 12))
   \<and> commented_block_violations twelve_stale_then_prose = Inr [StaleCommentBlock 1 12 12]
   \<and> check_commented_blocks twelve_stale_then_prose
       = Inr [''  Lines 1-12: 12 lines of commented-out code'']"
proof -
  have a: "length twelve_stale_then_prose = 13" by (simp add: twelve_stale_then_prose_def)
  have b: "list_all is_stale_line (take 12 twelve_stale_then_prose)" by code_simp
  have s: "strip (twelve_stale_then_prose ! 12) = ''# see the notes above''" by code_simp
  have c: "comment_classified (twelve_stale_then_prose ! 12)"
    unfolding comment_classified_def s by (simp add: comment_markers_def)
  have n: "\<not> is_stale_line (twelve_stale_then_prose ! 12)" by code_simp
  with c have d: "\<not> contains_code_signal (strip (twelve_stale_then_prose ! 12))"
    by (simp add: is_stale_line_iff)
  from b have b': "\<forall>l \<in> set (take 12 twelve_stale_then_prose). is_stale_line l"
    by (simp add: list_all_iff)
  from stale_comment_runs [of "[]" twelve_stale_then_prose] a b' c d
  have e: "commented_block_violations twelve_stale_then_prose = Inr [StaleCommentBlock 1 12 12]"
    and f: "check_commented_blocks twelve_stale_then_prose
       = Inr [''  Lines 1-12: 12 lines of commented-out code'']"
    by blast+
  from a b s c n d e f show ?thesis by blast
qed

text \<open>
  The claim C4 as written asks of a line that it contains a code signal. Each of the 12
  lines below is a comment and contains \<^verbatim>\<open>def \<close>, but \<^verbatim>\<open>line.strip()\<close> removes the
  space: the stripped text has no signal, the lines form no run and nothing is reported.
\<close>

theorem stale_comment_runs_counterexample:
  "length (replicate 12 trailing_def_line) = 12
   \<and> comment_classified trailing_def_line
   \<and> contains_code_signal trailing_def_line
   \<and> strip trailing_def_line = ''# def''
   \<and> \<not> contains_code_signal (strip trailing_def_line)
   \<and> \<not> is_stale_line trailing_def_line
   \<and> check_commented_blocks (replicate 12 trailing_def_line) = Inr []"
proof -
  have s: "strip trailing_def_line = ''# def''" by code_simp
  have c: "comment_classified trailing_def_line"
    unfolding comment_classified_def s by (simp add: comment_markers_def)
  have "take (length ''def '') (drop 2 trailing_def_line) = ''def ''"
    by (simp add: trailing_def_line_def)
  moreover have "''def '' \<in> set code_signals" by (simp add: code_signals_def)
  ultimately have r: "contains_code_signal trailing_def_line"
    unfolding contains_code_signal_def by blast
  have n: "\<not> is_stale_line trailing_def_line" by code_simp
  with c have d: "\<not> contains_code_signal (strip trailing_def_line)"
    by (simp add: is_stale_line_iff)
  have e: "check_commented_blocks (replicate 12 trailing_def_line) = Inr []" by code_simp
  from s c r n d e show ?thesis by simp
qed

subsection \<open>The family of start signatures\<close>

lemma rx_match_Star: "rx_match (Star c) s"
  by (cases "length (takeWhile (in_class c) s)") (simp_all add: rx_match_def)

lemma rx_match_Opt: "rx_match (Opt a) s"
  by (simp add: rx_match_def)

lemma rx_match_Seq_cong:
  "(\<And>t. rx_match b t \<longleftrightarrow> rx_match b' t) \<Longrightarrow> rx_match (Seq a b) s \<longleftrightarrow> rx_match (Seq a b') s"
  by (simp add: rx_match_Seq)

lemma rx_match_Seq_mono:
  "(\<And>t. rx_match b t \<Longrightarrow> rx_match b' t) \<Longrightarrow> rx_match (Seq a b) s \<Longrightarrow> rx_match (Seq a b') s"
  by (auto simp: rx_match_Seq)

lemma rx_match_Seq_total:
  "(\<And>t. rx_match b t) \<Longrightarrow> rx_match (Seq a b) s \<longleftrightarrow> rx_match a s"
  by (auto simp: rx_match_Seq rx_match_def)

lemma rx_match_Seq_Opt: "rx_match b s \<Longrightarrow> rx_match (Seq (Opt a) b) s"
  by (auto simp: rx_match_Seq)

lemma binding_tail_total:
  "rx_match (Seq (Star Space) (Seq (Opt (Seq (Lit ''async'') (Star Space))) (Opt (Lit ''('')))) t"
  by (simp add: rx_match_Seq_total rx_match_Opt rx_match_Star)

lemma binding_alternative_iff: "rx_match binding_alternative s \<longleftrightarrow> rx_match binding_head s"
  unfolding binding_alternative_def binding_head_def binding_core_def seqs.simps
  by (intro rx_match_Seq_cong rx_match_Seq_total binding_tail_total)

lemma spec_binding_imp: "rx_match spec_binding s \<Longrightarrow> rx_match binding_head s"
proof -
  assume "rx_match spec_binding s"
  then have "rx_match binding_core s"
    unfolding spec_binding_def binding_core_def seqs.simps
    by (elim rx_match_Seq_mono [rotated]) (simp add: rx_match_Seq rx_match_def)
  then show ?thesis
    unfolding binding_head_def seqs.simps by (intro rx_match_Seq_Opt)
qed

lemma space_not_letter:
  assumes "is_space c"
  shows "c \<noteq> CHR ''d''" "c \<noteq> CHR ''f''" "c \<noteq> CHR ''a''" "c \<noteq> CHR ''e''"
    "c \<noteq> CHR ''c''" "c \<noteq> CHR ''l''" "c \<noteq> CHR ''v''" "c \<noteq> CHR ''p''"
  using assms by (auto simp: is_space_def)

lemma amended_alternatives_no_space:
  assumes "is_space c"
  shows "\<not> rx_match (alts [Lit ''def '', Lit ''function '', Lit ''async function '',
              binding_head, Lit ''func '', method_alternative]) (c # t)"
  using space_not_letter [OF assms]
  by (simp add: rx_match_def binding_head_def binding_core_def method_alternative_def)

lemma Star_Space_skip:
  assumes ns: "\<And>c t. is_space c \<Longrightarrow> \<not> rx_match a (c # t)"
  shows "rx_match (Seq (Star Space) a) s \<longleftrightarrow> rx_match a (lstrip s)"
proof
  assume "rx_match a (lstrip s)"
  with lstrip_in_Star [of s] show "rx_match (Seq (Star Space) a) s"
    unfolding rx_match_Seq by blast
next
  let ?k = "length (takeWhile is_space s)"
  have cls: "in_class Space = is_space" by (rule ext) simp
  assume "rx_match (Seq (Star Space) a) s"
  then obtain j where j: "j \<le> ?k" "rx_match a (drop j s)"
    unfolding rx_match_Seq rx_rests_Star cls by blast
  have "j = ?k"
  proof (rule ccontr)
    assume "j \<noteq> ?k"
    with j(1) have lt: "j < ?k" by simp
    then have "takeWhile is_space s ! j = s ! j" by (rule takeWhile_nth)
    moreover from lt have "takeWhile is_space s ! j \<in> set (takeWhile is_space s)" by simp
    ultimately have sp: "is_space (s ! j)" by (auto dest: set_takeWhileD)
    have "?k \<le> length s" by (rule length_takeWhile_le)
    with lt have "j < length s" by simp
    then have "drop j s = s ! j # drop (Suc j) s" by (simp add: Cons_nth_drop_Suc)
    with j(2) ns [OF sp] show False by simp
  qed
  with j(2) show "rx_match a (lstrip s)"
    by (simp add: lstrip_def dropWhile_eq_drop)
qed

lemma func_alternatives_iff:
  "rx_match func_alternatives t \<longleftrightarrow>
     rx_match (alts [Lit ''def '', Lit ''function '', Lit ''async function '',
              binding_head, Lit ''func '', method_alternative]) t"
  by (simp add: func_alternatives_def rx_match_Alt binding_alternative_iff)

lemma is_func_start_lstrip:
  "is_func_start line \<longleftrightarrow>
     rx_match (alts [Lit ''def '', Lit ''function '', Lit ''async function '',
              binding_head, Lit ''func '', method_alternative]) (lstrip line)"
proof -
  have "is_func_start line \<longleftrightarrow>
      rx_match (Seq (Star Space) (alts [Lit ''def '', Lit ''function '', Lit ''async function '',
              binding_head, Lit ''func '', method_alternative])) line"
    unfolding is_func_start_def func_pattern_def
    by (rule rx_match_Seq_cong) (rule func_alternatives_iff)
  also have "\<dots> \<longleftrightarrow> rx_match (alts [Lit ''def '', Lit ''function '', Lit ''async function '',
              binding_head, Lit ''func '', method_alternative]) (lstrip line)"
    by (rule Star_Space_skip) (rule amended_alternatives_no_space)
  finally show ?thesis .
qed

lemma is_func_start_cases:
  "is_func_start line \<longleftrightarrow>
      take 4 (lstrip line) = ''def ''
      \<or> take 9 (lstrip line) = ''function ''
      \<or> take 15 (lstrip line) = ''async function ''
      \<or> rx_match binding_head (lstrip line)
      \<or> take 5 (lstrip line) = ''func ''
      \<or> rx_match method_alternative (lstrip line)"
proof -
  have n: "length ''def '' = 4" "length ''function '' = 9" "length ''async function '' = 15"
    "length ''func '' = 5" by simp_all
  show ?thesis
    unfolding is_func_start_lstrip alts.simps rx_match_Alt rx_match_Lit n ..
qed

lemma spec_alternatives_no_space:
  assumes "is_space c"
  shows "\<not> rx_match spec_alternatives (c # t)"
  using space_not_letter [OF assms]
  by (simp add: rx_match_def spec_alternatives_def spec_binding_def spec_method_def)

lemma spec_family_lstrip: "rx_match spec_family line \<longleftrightarrow> rx_match spec_alternatives (lstrip line)"
  unfolding spec_family_def by (rule Star_Space_skip) (rule spec_alternatives_no_space)

lemma spec_family_cases:
  assumes "rx_match spec_family line"
  shows "is_func_start line \<or> take 14 (lstrip line) = ''async function''"
proof -
  have n: "length ''def '' = 4" "length ''function '' = 9" "length ''async function'' = 14"
    "length ''func '' = 5" by simp_all
  have m: "spec_method = method_alternative"
    by (simp add: spec_method_def method_alternative_def)
  from assms have "take 4 (lstrip line) = ''def ''
      \<or> take 9 (lstrip line) = ''function ''
      \<or> take 14 (lstrip line) = ''async function''
      \<or> rx_match spec_binding (lstrip line)
      \<or> take 5 (lstrip line) = ''func ''
      \<or> rx_match method_alternative (lstrip line)"
    unfolding spec_family_lstrip spec_alternatives_def alts.simps rx_match_Alt rx_match_Lit n m .
  then show ?thesis
    unfolding is_func_start_cases using spec_binding_imp by blast
qed

text \<open>
  C2 (as amended): a line is a candidate function start exactly when, after its leading
  whitespace, it starts with \<^verbatim>\<open>def \<close>, \<^verbatim>\<open>function \<close>, \<^verbatim>\<open>async function \<close> (each
  with its space) or \<^verbatim>\<open>func \<close>, with a binding
  \<^verbatim>\<open>(export )?(async )?(function )?(const|let|var) NAME =\<close> (whatever follows the
  equals sign), or with a method signature
  \<^verbatim>\<open>(public|private|protected) (static )?(async )?NAME(\<close>. A line of the family the
  claim names is a candidate unless, after its leading whitespace, it starts with
  \<^verbatim>\<open>async function\<close>; such a line is a candidate only through the forms above.
\<close>

theorem func_start_family:
  "(is_func_start line \<longleftrightarrow>
      take 4 (lstrip line) = ''def ''
      \<or> take 9 (lstrip line) = ''function ''
      \<or> take 15 (lstrip line) = ''async function ''
      \<or> rx_match binding_head (lstrip line)
      \<or> take 5 (lstrip line) = ''func ''
      \<or> rx_match method_alternative (lstrip line))
   \<and> (rx_match spec_family line
        \<longrightarrow> is_func_start line \<or> take 14 (lstrip line) = ''async function'')"
  using is_func_start_cases [of line] spec_family_cases [of line] by blast

theorem func_start_family_witness:
  "rx_match spec_family arrow_function_line
   \<and> take 14 (lstrip arrow_function_line) \<noteq> ''async function''
   \<and> is_func_start arrow_function_line
   \<and> rx_match binding_head (lstrip arrow_function_line)"
proof -
  have a: "rx_match spec_family arrow_function_line" by code_simp
  have n: "take 14 (lstrip arrow_function_line) \<noteq> ''async function''" by code_simp
  from func_start_family [of arrow_function_line] a n
  have b: "is_func_start arrow_function_line" by blast
  have c: "rx_match binding_head (lstrip arrow_function_line)" by code_simp
  from a n b c show ?thesis by blast
qed

text \<open>
  The claim C2 as written fails in both directions. It requires an opening parenthesis
  after the equals sign of a binding: the pattern of the source makes it optional
  (\<^verbatim>\<open>\(?\<close>), so the plain constant binding below is a candidate start, and opens a span,
  although it is outside the family the claim names. And it names \<^verbatim>\<open>async function\<close>
  without a following space: the pattern of the source has the space, so the anonymous
  async function below is in the family the claim names and is not a candidate.
\<close>

theorem func_start_family_counterexample:
  "is_func_start constant_binding_line
   \<and> \<not> rx_match spec_family constant_binding_line
   \<and> function_spans [constant_binding_line] = [(''x'', 0, 1)]
   \<and> rx_match spec_family async_anonymous_line
   \<and> \<not> is_func_start async_anonymous_line
   \<and> function_spans [async_anonymous_line] = []"
  by code_simp

end
